theory Spec2Isabelle
  imports Main "HOL-Library.Word" "HOL-Library.Signed_Division"
begin

section \<open>Signed C arithmetic\<close>

text \<open>
  The kernels of \<^verbatim>\<open>operations_arm64.c\<close> are written in C over \<^verbatim>\<open>int64_t\<close> and
  \<^verbatim>\<open>int32_t\<close>. An element is a word of the width of its type, read as two's complement
  by \<open>sint\<close>. The C operators \<^verbatim>\<open>+\<close>, \<^verbatim>\<open>-\<close>, \<^verbatim>\<open>*\<close>, \<^verbatim>\<open>/\<close> and \<^verbatim>\<open>%\<close> on a signed type
  have a value only where the mathematical result fits the type, and \<^verbatim>\<open>/\<close> and \<^verbatim>\<open>%\<close> only
  for a divisor other than zero; everywhere else the behaviour of the program is
  undefined. The source has no check of its own, so these are the only checks of the
  model, and an undefined operation is an outcome of its own, never a value.
\<close>

datatype undefined_behaviour = SignedOverflow | DivisionByZero | OutOfBounds

definition MIN_VALUE :: "'a::len word" where
  "MIN_VALUE = word_of_int (- (2 ^ (LENGTH('a) - 1)))"

text \<open>The integers that a signed type of \<open>w\<close> bits holds.\<close>

definition representable :: "nat \<Rightarrow> int \<Rightarrow> bool" where
  "representable w r \<longleftrightarrow> - (2 ^ (w - 1)) \<le> r \<and> r < 2 ^ (w - 1)"

text \<open>The value of a signed expression whose mathematical result is \<open>r\<close>.\<close>

definition c_signed :: "int \<Rightarrow> undefined_behaviour + 'a::len word" where
  "c_signed r =
     (if representable LENGTH('a) r then Inr (word_of_int r) else Inl SignedOverflow)"

definition c_add :: "'a::len word \<Rightarrow> 'a word \<Rightarrow> undefined_behaviour + 'a word" where
  "c_add x y = c_signed (sint x + sint y)"

definition c_sub :: "'a::len word \<Rightarrow> 'a word \<Rightarrow> undefined_behaviour + 'a word" where
  "c_sub x y = c_signed (sint x - sint y)"

definition c_mul :: "'a::len word \<Rightarrow> 'a word \<Rightarrow> undefined_behaviour + 'a word" where
  "c_mul x y = c_signed (sint x * sint y)"

text \<open>
  \<^verbatim>\<open>x / y\<close> is the algebraic quotient with the fractional part discarded (\<open>sdiv\<close> on
  \<open>int\<close>), and \<^verbatim>\<open>x % y\<close> is defined exactly where \<^verbatim>\<open>x / y\<close> is.
\<close>

definition c_div :: "'a::len word \<Rightarrow> 'a word \<Rightarrow> undefined_behaviour + 'a word" where
  "c_div x y = (if y = 0 then Inl DivisionByZero else c_signed (sint x sdiv sint y))"

definition c_mod :: "'a::len word \<Rightarrow> 'a word \<Rightarrow> undefined_behaviour + 'a word" where
  "c_mod x y =
     (if y = 0 then Inl DivisionByZero
      else case (c_signed (sint x sdiv sint y) :: undefined_behaviour + 'a word) of
             Inl ub \<Rightarrow> Inl ub
           | Inr q \<Rightarrow> c_signed (sint x smod sint y))"

datatype binop = Add | Sub | Mul | Div | Mod

fun c_binop :: "binop \<Rightarrow> 'a::len word \<Rightarrow> 'a word \<Rightarrow> undefined_behaviour + 'a word" where
  "c_binop Add x y = c_add x y"
| "c_binop Sub x y = c_sub x y"
| "c_binop Mul x y = c_mul x y"
| "c_binop Div x y = c_div x y"
| "c_binop Mod x y = c_mod x y"

section \<open>Memory and the loop of a kernel\<close>

text \<open>
  The memory is a sequence of elements of one width; a pointer is the index of an element,
  so \<^verbatim>\<open>a[i]\<close> is the element at \<open>a + i\<close>. Both pointers of a kernel point into the
  same memory, so the output may be the input, lie apart from it, or overlap it. An access
  past the end of the memory is undefined behaviour.

  A kernel returns \<^verbatim>\<open>void\<close>: a call either returns, leaving a memory, or reaches an
  undefined operation; \<open>Undefined\<close> carries the memory as it stood at that point.
\<close>

datatype 'm outcome = Returned 'm | Undefined undefined_behaviour 'm

text \<open>
  \<^verbatim>\<open>for (int i = 0; i < len; i++) { result[i] = a[i] OP b; }\<close> from the value \<open>i\<close> of
  the counter on. \<^verbatim>\<open>len\<close> and \<^verbatim>\<open>i\<close> are C \<^verbatim>\<open>int\<close>s, 32 bits wide and compared as signed;
  \<^verbatim>\<open>i++\<close> cannot overflow, as it runs only where \<open>i < len\<close>. An iteration loads \<open>a[i]\<close>,
  computes, and stores \<open>result[i]\<close>. The loop hints of the source
  (\<^verbatim>\<open>#pragma clang loop vectorize(enable) interleave(enable)\<close>) do not change what the
  loop computes, and the ten kernels differ in the operator and the element type only.
\<close>

function scalar_loop ::
  "binop \<Rightarrow> nat \<Rightarrow> 'a::len word \<Rightarrow> nat \<Rightarrow> 32 word \<Rightarrow> 32 word \<Rightarrow> 'a word list
     \<Rightarrow> 'a word list outcome" where
  "scalar_loop opr a b result len i mem =
     (if i <s len then
        (if a + nat (sint i) < length mem then
           (case c_binop opr (mem ! (a + nat (sint i))) b of
              Inl ub \<Rightarrow> Undefined ub mem
            | Inr v \<Rightarrow>
                (if result + nat (sint i) < length mem
                 then scalar_loop opr a b result len (i + 1) (mem[result + nat (sint i) := v])
                 else Undefined OutOfBounds mem))
         else Undefined OutOfBounds mem)
      else Returned mem)"
  by pat_completeness auto

termination
proof (relation "measure (\<lambda>(opr, a, b, result, len, i, mem). nat (sint len - sint i))")
  show "wf (measure (\<lambda>(opr, a, b, result, len, i, mem). nat (sint len - sint i)))"
    by simp
next
  fix opr :: binop and a result :: nat and b x2 :: "'a word" and len i :: "32 word"
    and mem :: "'a word list"
  assume less: "i <s len"
  have "sint len < 2 ^ 31" "- (2 ^ 31) \<le> sint i"
    using sint_lt [of len] sint_ge [of i] by simp_all
  with less have "sint i + 1 < 2 ^ 31" "- (2 ^ 31) \<le> sint i + 1"
    by (simp_all add: word_sless_alt)
  then have "sint (i + 1) = sint i + 1"
    by (simp add: sint_word_ariths signed_take_bit_int_eq_self)
  with less show "((opr, a, b, result, len, i + 1, mem[result + nat (sint i) := x2]),
      (opr, a, b, result, len, i, mem))
    \<in> measure (\<lambda>(opr, a, b, result, len, i, mem). nat (sint len - sint i))"
    by (simp add: word_sless_alt)
qed

declare scalar_loop.simps [simp del]

text \<open>A kernel is the loop from \<^verbatim>\<open>i = 0\<close>.\<close>

definition scalar_kernel ::
  "binop \<Rightarrow> nat \<Rightarrow> 'a::len word \<Rightarrow> nat \<Rightarrow> 32 word \<Rightarrow> 'a word list \<Rightarrow> 'a word list outcome" where
  "scalar_kernel opr a b result len mem = scalar_loop opr a b result len 0 mem"

type_synonym int64_t = "64 word"
type_synonym int32_t = "32 word"

definition int64_add_scalar ::
  "nat \<Rightarrow> int64_t \<Rightarrow> nat \<Rightarrow> 32 word \<Rightarrow> int64_t list \<Rightarrow> int64_t list outcome" where
  "int64_add_scalar a b result len mem = scalar_kernel Add a b result len mem"

definition int64_sub_scalar ::
  "nat \<Rightarrow> int64_t \<Rightarrow> nat \<Rightarrow> 32 word \<Rightarrow> int64_t list \<Rightarrow> int64_t list outcome" where
  "int64_sub_scalar a b result len mem = scalar_kernel Sub a b result len mem"

definition int64_mul_scalar ::
  "nat \<Rightarrow> int64_t \<Rightarrow> nat \<Rightarrow> 32 word \<Rightarrow> int64_t list \<Rightarrow> int64_t list outcome" where
  "int64_mul_scalar a b result len mem = scalar_kernel Mul a b result len mem"

definition int64_div_scalar ::
  "nat \<Rightarrow> int64_t \<Rightarrow> nat \<Rightarrow> 32 word \<Rightarrow> int64_t list \<Rightarrow> int64_t list outcome" where
  "int64_div_scalar a b result len mem = scalar_kernel Div a b result len mem"

definition int64_mod_scalar ::
  "nat \<Rightarrow> int64_t \<Rightarrow> nat \<Rightarrow> 32 word \<Rightarrow> int64_t list \<Rightarrow> int64_t list outcome" where
  "int64_mod_scalar a b result len mem = scalar_kernel Mod a b result len mem"

definition int32_add_scalar ::
  "nat \<Rightarrow> int32_t \<Rightarrow> nat \<Rightarrow> 32 word \<Rightarrow> int32_t list \<Rightarrow> int32_t list outcome" where
  "int32_add_scalar a b result len mem = scalar_kernel Add a b result len mem"

definition int32_sub_scalar ::
  "nat \<Rightarrow> int32_t \<Rightarrow> nat \<Rightarrow> 32 word \<Rightarrow> int32_t list \<Rightarrow> int32_t list outcome" where
  "int32_sub_scalar a b result len mem = scalar_kernel Sub a b result len mem"

definition int32_mul_scalar ::
  "nat \<Rightarrow> int32_t \<Rightarrow> nat \<Rightarrow> 32 word \<Rightarrow> int32_t list \<Rightarrow> int32_t list outcome" where
  "int32_mul_scalar a b result len mem = scalar_kernel Mul a b result len mem"

definition int32_div_scalar ::
  "nat \<Rightarrow> int32_t \<Rightarrow> nat \<Rightarrow> 32 word \<Rightarrow> int32_t list \<Rightarrow> int32_t list outcome" where
  "int32_div_scalar a b result len mem = scalar_kernel Div a b result len mem"

definition int32_mod_scalar ::
  "nat \<Rightarrow> int32_t \<Rightarrow> nat \<Rightarrow> 32 word \<Rightarrow> int32_t list \<Rightarrow> int32_t list outcome" where
  "int32_mod_scalar a b result len mem = scalar_kernel Mod a b result len mem"

section \<open>The notions of the specification\<close>

text \<open>
  The specification's \<open>a[i] OP b\<close> over the integers, as it defines the five operations:
  sum, difference, product, the quotient rounded toward zero and the remainder of that
  division.
\<close>

fun exact_result :: "binop \<Rightarrow> int \<Rightarrow> int \<Rightarrow> int" where
  "exact_result Add x y = x + y"
| "exact_result Sub x y = x - y"
| "exact_result Mul x y = x * y"
| "exact_result Div x y = x sdiv y"
| "exact_result Mod x y = x smod y"

text \<open>
  The result as an element of the width: for add, subtract and multiply the specification's
  wraparound result, modulo \<open>2 ^ W\<close>; for divide and modulo the element that holds the
  quotient or the remainder.
\<close>

fun wrapping :: "binop \<Rightarrow> 'a::len word \<Rightarrow> 'a word \<Rightarrow> 'a word" where
  "wrapping Add x y = x + y"
| "wrapping Sub x y = x - y"
| "wrapping Mul x y = x * y"
| "wrapping Div x y = word_of_int (sint x sdiv sint y)"
| "wrapping Mod x y = word_of_int (sint x smod sint y)"

text \<open>
  The inputs on which \<open>x OP y\<close> has a value: for divide and modulo the preconditions of
  the specification (\<open>y \<noteq> 0\<close>, and not \<open>MIN_VALUE\<close> by \<open>-1\<close>), for the other three that the
  exact result fits the width.
\<close>

fun has_value :: "binop \<Rightarrow> 'a::len word \<Rightarrow> 'a word \<Rightarrow> bool" where
  "has_value Div x y \<longleftrightarrow> y \<noteq> 0 \<and> \<not> (x = MIN_VALUE \<and> y = - 1)"
| "has_value Mod x y \<longleftrightarrow> y \<noteq> 0 \<and> \<not> (x = MIN_VALUE \<and> y = - 1)"
| "has_value opr x y \<longleftrightarrow> representable LENGTH('a) (exact_result opr (sint x) (sint y))"

text \<open>
  The specification's division: \<open>q\<close> is the quotient of \<open>x\<close> by \<open>y\<close> rounded toward
  zero, and \<open>r\<close> is the remainder of that division, with the sign of the dividend or zero.
\<close>

definition truncated_quotient :: "int \<Rightarrow> int \<Rightarrow> int \<Rightarrow> bool" where
  "truncated_quotient x y q \<longleftrightarrow>
     \<bar>q\<bar> * \<bar>y\<bar> \<le> \<bar>x\<bar> \<and> \<bar>x\<bar> < (\<bar>q\<bar> + 1) * \<bar>y\<bar> \<and> (q = 0 \<or> sgn q = sgn x * sgn y)"

definition truncated_remainder :: "int \<Rightarrow> int \<Rightarrow> int \<Rightarrow> bool" where
  "truncated_remainder x y r \<longleftrightarrow> y dvd x - r \<and> \<bar>r\<bar> < \<bar>y\<bar> \<and> (r = 0 \<or> sgn r = sgn x)"

text \<open>The undefined operation that \<open>x OP y\<close> is where it has no value.\<close>

definition undefined_at :: "binop \<Rightarrow> 'a::len word \<Rightarrow> undefined_behaviour" where
  "undefined_at opr y =
     (if y = 0 \<and> (opr = Div \<or> opr = Mod) then DivisionByZero else SignedOverflow)"

text \<open>The number of iterations that a length asks for, and the memory an outcome leaves.\<close>

definition iterations :: "32 word \<Rightarrow> nat" where
  "iterations len = nat (sint len)"

fun memory_of :: "'m outcome \<Rightarrow> 'm" where
  "memory_of (Returned m) = m"
| "memory_of (Undefined ub m) = m"

text \<open>
  The output of the data model: the same buffer as the input, or a region apart from it.
\<close>

definition same_or_apart :: "nat \<Rightarrow> nat \<Rightarrow> nat \<Rightarrow> bool" where
  "same_or_apart a result n \<longleftrightarrow> result = a \<or> a + n \<le> result \<or> result + n \<le> a"

section \<open>Properties of the arithmetic\<close>

lemma sint_representable: "representable LENGTH('a) (sint (x :: 'a::len word))"
  using sint_ge [of x] sint_lt [of x] by (simp add: representable_def)

lemma sint_word_of_int_representable:
  "representable LENGTH('a) r \<Longrightarrow> sint (word_of_int r :: 'a::len word) = r"
  by (simp add: representable_def sint_word_ariths signed_take_bit_int_eq_self sint_sbintrunc')

lemma sint_MIN_VALUE: "sint (MIN_VALUE :: 'a::len word) = - (2 ^ (LENGTH('a) - 1))"
  unfolding MIN_VALUE_def
  by (rule sint_word_of_int_representable) (simp add: representable_def)

lemma sint_eq_imp_eq: "sint (x :: 'a::len word) = sint y \<Longrightarrow> x = y"
  by (rule signed_word_eqI)

lemma sdiv_representable_iff:
  fixes x y :: "'a::len word"
  assumes "y \<noteq> 0"
  shows "representable LENGTH('a) (sint x sdiv sint y) \<longleftrightarrow> \<not> (x = MIN_VALUE \<and> y = - 1)"
proof
  assume "representable LENGTH('a) (sint x sdiv sint y)"
  show "\<not> (x = MIN_VALUE \<and> y = - 1)"
  proof
    assume "x = MIN_VALUE \<and> y = - 1"
    then have "sint x sdiv sint y = 2 ^ (LENGTH('a) - 1)"
      by (simp add: sint_MIN_VALUE)
    with \<open>representable LENGTH('a) (sint x sdiv sint y)\<close> show False
      by (simp add: representable_def)
  qed
next
  assume ok: "\<not> (x = MIN_VALUE \<and> y = - 1)"
  let ?M = "(2::int) ^ (LENGTH('a) - 1)"
  have rx: "- ?M \<le> sint x" "sint x < ?M"
    using sint_ge [of x] sint_lt [of x] by simp_all
  have range: "- \<bar>sint x\<bar> \<le> sint x sdiv sint y" "sint x sdiv sint y \<le> \<bar>sint x\<bar>"
    using sdiv_int_range [of "sint x" "sint y"] by simp_all
  have "sint x sdiv sint y \<noteq> ?M"
  proof
    assume top: "sint x sdiv sint y = ?M"
    with range rx have sx: "sint x = - ?M"
      by linarith
    then have "x = MIN_VALUE"
      by (simp add: sint_eq_imp_eq sint_MIN_VALUE)
    moreover have "sint x \<noteq> 0" "sint x sdiv sint y = - sint x"
      using sx top by simp_all
    then have "sint y = - 1"
      by simp
    then have "y = - 1"
      by (simp add: sint_eq_imp_eq)
    ultimately show False
      using ok by simp
  qed
  with range rx show "representable LENGTH('a) (sint x sdiv sint y)"
    unfolding representable_def by linarith
qed

lemma smod_representable:
  fixes x y :: "'a::len word"
  assumes "y \<noteq> 0"
  shows "representable LENGTH('a) (sint x smod sint y)"
proof -
  have "sint y \<noteq> 0"
    using assms by (metis sint_eq_imp_eq sint_0)
  then have "- \<bar>sint y\<bar> + 1 \<le> sint x smod sint y" "sint x smod sint y \<le> \<bar>sint y\<bar> - 1"
    using smod_int_range [of "sint y" "sint x"] by simp_all
  moreover have "- (2 ^ (LENGTH('a) - 1)) \<le> sint y" "sint y < 2 ^ (LENGTH('a) - 1)"
    using sint_ge [of y] sint_lt [of y] by simp_all
  ultimately show ?thesis
    unfolding representable_def by linarith
qed

text \<open>
  Where \<open>x OP y\<close> has a value, C computes the exact result, which is also the wraparound
  result; everywhere else the operation is undefined.
\<close>

lemma c_binop_has_value:
  fixes x y :: "'a::len word"
  assumes "has_value opr x y"
  shows "c_binop opr x y = Inr (wrapping opr x y)"
    and "sint (wrapping opr x y) = exact_result opr (sint x) (sint y)"
proof -
  have rep: "representable LENGTH('a) (exact_result opr (sint x) (sint y))"
    using assms by (cases opr) (simp_all add: sdiv_representable_iff smod_representable)
  have wrap: "wrapping opr x y = word_of_int (exact_result opr (sint x) (sint y))"
    by (cases opr) simp_all
  show "sint (wrapping opr x y) = exact_result opr (sint x) (sint y)"
    unfolding wrap using rep by (rule sint_word_of_int_representable)
  show "c_binop opr x y = Inr (wrapping opr x y)"
    unfolding wrap using assms rep
    by (cases opr)
       (simp_all add: c_add_def c_sub_def c_mul_def c_div_def c_mod_def c_signed_def
          sdiv_representable_iff)
qed

lemma c_binop_no_value:
  fixes x y :: "'a::len word"
  assumes "\<not> has_value opr x y"
  shows "c_binop opr x y = Inl (undefined_at opr y)"
  using assms
  by (cases opr)
     (auto simp: c_add_def c_sub_def c_mul_def c_div_def c_mod_def c_signed_def
        sdiv_representable_iff undefined_at_def)

lemma c_binop_Inr_iff:
  "c_binop opr x y = Inr v \<longleftrightarrow> has_value opr x y \<and> v = wrapping opr x y"
  by (cases "has_value opr x y") (auto simp: c_binop_has_value(1) c_binop_no_value)

text \<open>\<open>sdiv\<close> and \<open>smod\<close> are the division of the specification.\<close>

lemma sdiv_truncated_quotient:
  fixes x y :: int
  assumes "y \<noteq> 0"
  shows "truncated_quotient x y (x sdiv y)"
proof -
  have "0 \<le> \<bar>x\<bar> div \<bar>y\<bar>"
    by (simp add: div_int_pos_iff)
  then have mag: "\<bar>x sdiv y\<bar> = \<bar>x\<bar> div \<bar>y\<bar>"
    using assms by (cases "x = 0") (simp_all add: signed_divide_int_def abs_mult abs_sgn_eq)
  have pos: "0 < \<bar>y\<bar>"
    using assms by simp
  have split: "\<bar>x\<bar> div \<bar>y\<bar> * \<bar>y\<bar> + \<bar>x\<bar> mod \<bar>y\<bar> = \<bar>x\<bar>"
    by simp
  have "0 \<le> \<bar>x\<bar> mod \<bar>y\<bar>" "\<bar>x\<bar> mod \<bar>y\<bar> < \<bar>y\<bar>"
    using pos by simp_all
  with split have "\<bar>x\<bar> div \<bar>y\<bar> * \<bar>y\<bar> \<le> \<bar>x\<bar>"
    and "\<bar>x\<bar> < (\<bar>x\<bar> div \<bar>y\<bar> + 1) * \<bar>y\<bar>"
    unfolding distrib_right by linarith+
  moreover have "x sdiv y = 0 \<or> sgn (x sdiv y) = sgn x * sgn y"
    using sgn_sdiv_eq_sgn_mult [of x y] by (auto simp: sgn_mult)
  ultimately show ?thesis
    unfolding truncated_quotient_def mag by blast
qed

lemma smod_truncated_remainder:
  fixes x y :: int
  assumes "y \<noteq> 0"
  shows "truncated_remainder x y (x smod y)"
proof -
  have "x - x smod y = x sdiv y * y"
    by (rule minus_smod_eq_sdiv_mult)
  then have "y dvd x - x smod y"
    by simp
  moreover have "\<bar>x smod y\<bar> < \<bar>y\<bar>"
    using smod_int_range [OF assms, of x] by auto
  moreover have "x smod y = 0 \<or> sgn (x smod y) = sgn x"
  proof (cases "\<bar>x\<bar> mod \<bar>y\<bar> = 0")
    case True
    then show ?thesis
      by (simp add: signed_modulo_int_def)
  next
    case False
    moreover have "0 \<le> \<bar>x\<bar> mod \<bar>y\<bar>"
      using assms by simp
    ultimately have "sgn (\<bar>x\<bar> mod \<bar>y\<bar>) = 1"
      by simp
    then show ?thesis
      by (simp add: signed_modulo_int_def sgn_mult)
  qed
  ultimately show ?thesis
    by (simp add: truncated_remainder_def)
qed

lemma sint_neq_zero: "b \<noteq> 0 \<Longrightarrow> sint (b :: 'a::len word) \<noteq> 0"
  by (metis sint_eq_imp_eq sint_0)

section \<open>Properties of the loop\<close>

lemma sint_succ:
  fixes i len :: "32 word"
  assumes "i <s len"
  shows "sint (i + 1) = sint i + 1"
proof -
  have "sint len < 2 ^ 31" "- (2 ^ 31) \<le> sint i"
    using sint_lt [of len] sint_ge [of i] by simp_all
  with assms have "sint i + 1 < 2 ^ 31" "- (2 ^ 31) \<le> sint i + 1"
    by (simp_all add: word_sless_alt)
  then show ?thesis
    by (simp add: sint_word_ariths signed_take_bit_int_eq_self)
qed

lemma nat_sint_succ:
  fixes i len :: "32 word"
  assumes "i <s len" "0 \<le> sint i"
  shows "nat (sint (i + 1)) = Suc (nat (sint i))" "0 \<le> sint (i + 1)"
  using assms by (simp_all add: sint_succ nat_add_distrib)

lemma sless_iterations:
  "0 \<le> sint i \<Longrightarrow> i <s len \<longleftrightarrow> nat (sint i) < iterations len"
  by (auto simp: word_sless_alt iterations_def)

lemma scalar_loop_stop:
  "\<not> i <s len \<Longrightarrow> scalar_loop opr a b result len i mem = Returned mem"
  by (simp add: scalar_loop.simps)

lemma scalar_loop_step:
  assumes "i <s len" "a + nat (sint i) < length mem" "result + nat (sint i) < length mem"
    and "c_binop opr (mem ! (a + nat (sint i))) b = Inr v"
  shows "scalar_loop opr a b result len i mem =
    scalar_loop opr a b result len (i + 1) (mem[result + nat (sint i) := v])"
  using assms by (subst scalar_loop.simps) simp

lemma scalar_loop_halt:
  assumes "\<not> (i <s len \<and> a + nat (sint i) < length mem \<and> result + nat (sint i) < length mem
    \<and> (\<exists>v. c_binop opr (mem ! (a + nat (sint i))) b = Inr v))"
  shows "memory_of (scalar_loop opr a b result len i mem) = mem"
  using assms by (subst scalar_loop.simps) (auto split: sum.splits)

lemma scalar_loop_frame:
  assumes "0 \<le> sint i"
  shows "length (memory_of (scalar_loop opr a b result len i mem)) = length mem \<and>
    (\<forall>k. k < result + nat (sint i) \<or> result + iterations len \<le> k \<longrightarrow>
       memory_of (scalar_loop opr a b result len i mem) ! k = mem ! k)"
  using assms
proof (induction opr a b result len i mem rule: scalar_loop.induct)
  case (1 opr a b result len i mem)
  show ?case
  proof (cases "i <s len \<and> a + nat (sint i) < length mem \<and> result + nat (sint i) < length mem
      \<and> (\<exists>v. c_binop opr (mem ! (a + nat (sint i))) b = Inr v)")
    case True
    then obtain v where v: "c_binop opr (mem ! (a + nat (sint i))) b = Inr v"
      by blast
    let ?mem = "mem[result + nat (sint i) := v]"
    have step: "scalar_loop opr a b result len i mem = scalar_loop opr a b result len (i + 1) ?mem"
      using True v by (simp add: scalar_loop_step)
    have next_i: "nat (sint (i + 1)) = Suc (nat (sint i))" "0 \<le> sint (i + 1)"
      using True "1.prems" nat_sint_succ [of i len] by simp_all
    have IH: "length (memory_of (scalar_loop opr a b result len (i + 1) ?mem)) = length ?mem \<and>
      (\<forall>k. k < result + nat (sint (i + 1)) \<or> result + iterations len \<le> k \<longrightarrow>
         memory_of (scalar_loop opr a b result len (i + 1) ?mem) ! k = ?mem ! k)"
      using True v next_i(2) by (intro "1.IH") simp_all
    have "nat (sint i) < iterations len"
      using True "1.prems" by (simp add: sless_iterations)
    then have "?mem ! k = mem ! k" if "k < result + nat (sint i) \<or> result + iterations len \<le> k" for k
      using that by auto
    with IH show ?thesis
      unfolding step next_i(1) by auto
  next
    case False
    then show ?thesis
      by (simp add: scalar_loop_halt)
  qed
qed

lemma scalar_loop_undefined:
  assumes "i <s len" "a + nat (sint i) < length mem" "c_binop opr (mem ! (a + nat (sint i))) b = Inl ub"
  shows "scalar_loop opr a b result len i mem = Undefined ub mem"
  using assms by (subst scalar_loop.simps) simp

lemma scalar_loop_run:
  fixes mem :: "'a::len word list"
  assumes "m - s = d" "0 \<le> sint i" "s = nat (sint i)" "n = iterations len"
    and "a + n \<le> length mem" "result + n \<le> length mem"
    and "\<forall>j k. s \<le> j \<and> j < k \<and> k < n \<longrightarrow> result + j \<noteq> a + k"
    and "s \<le> m" "m \<le> n" "\<forall>j. s \<le> j \<and> j < m \<longrightarrow> has_value opr (mem ! (a + j)) b"
    and "m = n \<or> \<not> has_value opr (mem ! (a + m)) b"
  shows "\<exists>mem'. scalar_loop opr a b result len i mem =
           (if m = n then Returned mem'
            else Undefined (undefined_at opr b) mem')
         \<and> length mem' = length mem
         \<and> (\<forall>j. s \<le> j \<and> j < m \<longrightarrow> mem' ! (result + j) = wrapping opr (mem ! (a + j)) b)
         \<and> (\<forall>k. k < result + s \<or> result + m \<le> k \<longrightarrow> mem' ! k = mem ! k)"
  using assms
proof (induction d arbitrary: i s mem)
  case 0
  then have ms: "m = s"
    by simp
  show ?case
  proof (cases "m = n")
    case True
    then have "\<not> i <s len"
      using 0 ms by (simp add: sless_iterations)
    then have "scalar_loop opr a b result len i mem = Returned mem"
      by (rule scalar_loop_stop)
    then show ?thesis
      using True ms by auto
  next
    case False
    then have "i <s len" "a + nat (sint i) < length mem"
      and "\<not> has_value opr (mem ! (a + nat (sint i))) b"
      using 0 ms by (simp_all add: sless_iterations)
    then have "scalar_loop opr a b result len i mem =
      Undefined (undefined_at opr b) mem"
      by (intro scalar_loop_undefined c_binop_no_value)
    then show ?thesis
      using False ms by auto
  qed
next
  case (Suc d)
  let ?v = "wrapping opr (mem ! (a + s)) b"
  let ?mem = "mem[result + s := ?v]"
  have sm: "s < m" "s < n"
    using Suc.prems by simp_all
  then have less: "i <s len"
    using Suc.prems by (simp add: sless_iterations)
  have val: "c_binop opr (mem ! (a + nat (sint i))) b = Inr ?v"
    using Suc.prems sm by (simp add: c_binop_has_value(1))
  have step: "scalar_loop opr a b result len i mem = scalar_loop opr a b result len (i + 1) ?mem"
    using scalar_loop_step [OF less _ _ val, of result] Suc.prems sm by simp
  have next_i: "Suc s = nat (sint (i + 1))" "0 \<le> sint (i + 1)"
    using nat_sint_succ [OF less] Suc.prems by simp_all
  have same: "?mem ! (a + j) = mem ! (a + j)" if "s < j" "j < n" for j
    using that Suc.prems(7) by (metis le_refl nth_list_update_neq)
  have "\<exists>mem'. scalar_loop opr a b result len (i + 1) ?mem =
           (if m = n then Returned mem'
            else Undefined (undefined_at opr b) mem')
         \<and> length mem' = length ?mem
         \<and> (\<forall>j. Suc s \<le> j \<and> j < m \<longrightarrow> mem' ! (result + j) = wrapping opr (?mem ! (a + j)) b)
         \<and> (\<forall>k. k < result + Suc s \<or> result + m \<le> k \<longrightarrow> mem' ! k = ?mem ! k)"
  proof (rule Suc.IH)
    show "m - Suc s = d"
      using Suc.prems by simp
    show "0 \<le> sint (i + 1)" "Suc s = nat (sint (i + 1))" "n = iterations len"
      using next_i Suc.prems by simp_all
    show "a + n \<le> length ?mem" "result + n \<le> length ?mem"
      using Suc.prems by simp_all
    show "\<forall>j k. Suc s \<le> j \<and> j < k \<and> k < n \<longrightarrow> result + j \<noteq> a + k"
      using Suc.prems(7) by simp
    show "Suc s \<le> m" "m \<le> n"
      using sm Suc.prems by simp_all
    show "\<forall>j. Suc s \<le> j \<and> j < m \<longrightarrow> has_value opr (?mem ! (a + j)) b"
      using same Suc.prems by simp
    show "m = n \<or> \<not> has_value opr (?mem ! (a + m)) b"
      using same [of m] sm Suc.prems by (cases "m = n") simp_all
  qed
  then obtain mem' where run: "scalar_loop opr a b result len (i + 1) ?mem =
           (if m = n then Returned mem'
            else Undefined (undefined_at opr b) mem')"
    and len': "length mem' = length mem"
    and written: "\<And>j. Suc s \<le> j \<Longrightarrow> j < m \<Longrightarrow> mem' ! (result + j) = wrapping opr (?mem ! (a + j)) b"
    and kept: "\<And>k. k < result + Suc s \<or> result + m \<le> k \<Longrightarrow> mem' ! k = ?mem ! k"
    by auto
  have "mem' ! (result + j) = wrapping opr (mem ! (a + j)) b" if "s \<le> j" "j < m" for j
  proof (cases "j = s")
    case True
    have "mem' ! (result + s) = ?mem ! (result + s)"
      by (rule kept) simp
    also have "\<dots> = ?v"
      using Suc.prems sm by simp
    finally show ?thesis
      using True by simp
  next
    case False
    then have "Suc s \<le> j" "s < j" "j < n"
      using that Suc.prems by simp_all
    then show ?thesis
      using written [of j] same [of j] that by simp
  qed
  moreover have "mem' ! k = mem ! k" if "k < result + s \<or> result + m \<le> k" for k
  proof -
    have "mem' ! k = ?mem ! k"
      using that by (intro kept) auto
    moreover have "k \<noteq> result + s"
      using that sm by auto
    ultimately show ?thesis
      by simp
  qed
  ultimately show ?case
    unfolding step using run len' by auto
qed


lemma same_or_apart_safe:
  assumes "same_or_apart a result n"
  shows "\<forall>j k. (0::nat) \<le> j \<and> j < k \<and> k < n \<longrightarrow> result + j \<noteq> a + k"
  using assms by (auto simp: same_or_apart_def)

lemma scalar_kernel_run:
  fixes mem :: "'a::len word list"
  assumes "a + iterations len \<le> length mem" "result + iterations len \<le> length mem"
    and "same_or_apart a result (iterations len)"
    and "m \<le> iterations len" "\<forall>j<m. has_value opr (mem ! (a + j)) b"
    and "m = iterations len \<or> \<not> has_value opr (mem ! (a + m)) b"
  shows "\<exists>mem'. scalar_kernel opr a b result len mem =
           (if m = iterations len then Returned mem' else Undefined (undefined_at opr b) mem')
         \<and> length mem' = length mem
         \<and> (\<forall>j<m. mem' ! (result + j) = wrapping opr (mem ! (a + j)) b)
         \<and> (\<forall>k. k < result \<or> result + m \<le> k \<longrightarrow> mem' ! k = mem ! k)"
  using scalar_loop_run [of m 0 m 0 "iterations len" len a mem result opr b]
    same_or_apart_safe [OF assms(3)] assms
  by (simp add: scalar_kernel_def)

lemma first_without_value:
  fixes mem :: "'a::len word list"
  obtains m where "m \<le> n" "\<forall>j<m. has_value opr (mem ! (a + j)) b"
    "m = n \<or> \<not> has_value opr (mem ! (a + m)) b"
proof (cases "\<forall>j<n. has_value opr (mem ! (a + j)) b")
  case True
  then show ?thesis
    using that [of n] by simp
next
  case False
  define m where "m = (LEAST j. j < n \<and> \<not> has_value opr (mem ! (a + j)) b)"
  have "\<exists>j. j < n \<and> \<not> has_value opr (mem ! (a + j)) b"
    using False by blast
  then have "m < n \<and> \<not> has_value opr (mem ! (a + m)) b"
    unfolding m_def by (rule LeastI_ex)
  moreover have "has_value opr (mem ! (a + j)) b" if "j < m" for j
    using not_less_Least [of j "\<lambda>j. j < n \<and> \<not> has_value opr (mem ! (a + j)) b"] that calculation
    unfolding m_def by auto
  ultimately show ?thesis
    using that [of m] by simp
qed

lemma scalar_kernel_returns:
  fixes mem :: "'a::len word list"
  assumes "a + iterations len \<le> length mem" "result + iterations len \<le> length mem"
    and "same_or_apart a result (iterations len)"
    and "\<forall>j < iterations len. has_value opr (mem ! (a + j)) b"
  shows "\<exists>mem'. scalar_kernel opr a b result len mem = Returned mem'
         \<and> length mem' = length mem
         \<and> (\<forall>j < iterations len. mem' ! (result + j) = wrapping opr (mem ! (a + j)) b)
         \<and> (\<forall>k. k < result \<or> result + iterations len \<le> k \<longrightarrow> mem' ! k = mem ! k)"
  using scalar_kernel_run [OF assms(1-3), of "iterations len" opr b] assms(4) by simp

lemma scalar_kernel_undefined:
  fixes mem :: "'a::len word list"
  assumes "a + iterations len \<le> length mem" "result + iterations len \<le> length mem"
    and "same_or_apart a result (iterations len)"
    and "m < iterations len" "\<forall>j<m. has_value opr (mem ! (a + j)) b"
    and "\<not> has_value opr (mem ! (a + m)) b"
  shows "\<exists>mem'. scalar_kernel opr a b result len mem = Undefined (undefined_at opr b) mem'
         \<and> length mem' = length mem
         \<and> (\<forall>j<m. mem' ! (result + j) = wrapping opr (mem ! (a + j)) b)
         \<and> (\<forall>k. k < result \<or> result + m \<le> k \<longrightarrow> mem' ! k = mem ! k)"
  using scalar_kernel_run [OF assms(1-3), of m opr b] assms(4-6) by simp

lemma scalar_kernel_Returned_has_value:
  fixes mem :: "'a::len word list"
  assumes "a + iterations len \<le> length mem" "result + iterations len \<le> length mem"
    and "same_or_apart a result (iterations len)"
    and "scalar_kernel opr a b result len mem = Returned mem'"
  shows "\<forall>j < iterations len. has_value opr (mem ! (a + j)) b"
proof -
  obtain m where m: "m \<le> iterations len" "\<forall>j<m. has_value opr (mem ! (a + j)) b"
    "m = iterations len \<or> \<not> has_value opr (mem ! (a + m)) b"
    by (rule first_without_value)
  have "m = iterations len"
    using scalar_kernel_run [OF assms(1-3) m] assms(4) by (cases "m = iterations len") auto
  with m(2) show ?thesis
    by simp
qed

section \<open>The results of a call\<close>

text \<open>
  C1, as the code has it: for every operation and width, when both buffers lie in the
  memory, the output is the input buffer or apart from it, and \<open>a[i] OP b\<close> has a value for
  every \<open>i < len\<close> (the preconditions of divide and modulo, and for add, subtract and
  multiply an exact result that fits the width), the kernel returns, \<open>result[i]\<close> is the
  exact \<open>a[i] OP b\<close> for every \<open>i < len\<close>, and no other element of the memory has changed.
\<close>

theorem kernel_writes_exact_results:
  fixes mem :: "'a::len word list"
  assumes "a + iterations len \<le> length mem" "result + iterations len \<le> length mem"
    and "same_or_apart a result (iterations len)"
    and "\<forall>j < iterations len. has_value opr (mem ! (a + j)) b"
  shows "\<exists>mem'. scalar_kernel opr a b result len mem = Returned mem'
    \<and> length mem' = length mem
    \<and> (\<forall>j < iterations len.
          sint (mem' ! (result + j)) = exact_result opr (sint (mem ! (a + j))) (sint b))
    \<and> (\<forall>k. \<not> (result \<le> k \<and> k < result + iterations len) \<longrightarrow> mem' ! k = mem ! k)"
proof -
  obtain mem' where run: "scalar_kernel opr a b result len mem = Returned mem'"
    and size: "length mem' = length mem"
    and written: "\<forall>j < iterations len. mem' ! (result + j) = wrapping opr (mem ! (a + j)) b"
    and kept: "\<forall>k. k < result \<or> result + iterations len \<le> k \<longrightarrow> mem' ! k = mem ! k"
    using scalar_kernel_returns [OF assms] by blast
  have "sint (mem' ! (result + j)) = exact_result opr (sint (mem ! (a + j))) (sint b)"
    if "j < iterations len" for j
    using that written assms(4) by (simp add: c_binop_has_value(2))
  moreover have "mem' ! k = mem ! k" if "\<not> (result \<le> k \<and> k < result + iterations len)" for k
  proof -
    from that have "k < result \<or> result + iterations len \<le> k"
      by arith
    with kept show ?thesis
      by blast
  qed
  ultimately show ?thesis
    using run size by blast
qed

theorem kernel_writes_exact_results_witness:
  "0 + iterations 2 \<le> length [7, - 9, 0, 0 :: 64 word]
   \<and> 2 + iterations 2 \<le> length [7, - 9, 0, 0 :: 64 word]
   \<and> same_or_apart 0 2 (iterations 2)
   \<and> has_value Div ([7, - 9, 0, 0 :: 64 word] ! (0 + 0)) (- 2)
   \<and> has_value Div ([7, - 9, 0, 0 :: 64 word] ! (0 + 1)) (- 2)
   \<and> (\<exists>mem'. int64_div_scalar 0 (- 2) 2 2 [7, - 9, 0, 0] = Returned mem'
        \<and> length mem' = length [7, - 9, 0, 0 :: 64 word]
        \<and> (\<forall>j < iterations 2. sint (mem' ! (2 + j))
              = exact_result Div (sint ([7, - 9, 0, 0 :: 64 word] ! (0 + j))) (sint (- 2 :: 64 word)))
        \<and> (\<forall>k. \<not> (2 \<le> k \<and> k < 2 + iterations 2) \<longrightarrow> mem' ! k = [7, - 9, 0, 0] ! k))
   \<and> int64_div_scalar 0 (- 2) 2 2 [7, - 9, 0, 0] = Returned [7, - 9, - 3, 4]"
proof -
  have n: "iterations 2 = 2"
    by (simp add: iterations_def)
  have h1: "0 + iterations 2 \<le> length [7, - 9, 0, 0 :: 64 word]"
    and h2: "2 + iterations 2 \<le> length [7, - 9, 0, 0 :: 64 word]"
    and h3: "same_or_apart 0 2 (iterations 2)"
    and h4: "\<forall>j < iterations 2. has_value Div ([7, - 9, 0, 0 :: 64 word] ! (0 + j)) (- 2)"
    by (simp_all add: n same_or_apart_def)
  have each: "has_value Div ([7, - 9, 0, 0 :: 64 word] ! (0 + 0)) (- 2)"
    "has_value Div ([7, - 9, 0, 0 :: 64 word] ! (0 + 1)) (- 2)"
    by simp_all
  have run: "int64_div_scalar 0 (- 2) 2 2 [7, - 9, 0, 0] = Returned [7, - 9, - 3, 4]"
    by code_simp
  show ?thesis
    using kernel_writes_exact_results [OF h1 h2 h3 h4] h1 h2 h3 each run
    unfolding int64_div_scalar_def by blast
qed

text \<open>
  C1 as stated asks nothing of the inputs of add, subtract and multiply. The product
  \<open>65536 * 65536\<close> does not fit 32 bits: the multiply kernel reaches a signed overflow at
  index 1, undefined in C, and \<open>result[1]\<close> is never written.
\<close>

theorem multiply_overflow_counterexample:
  "int32_mul_scalar 0 65536 0 2 [3, 65536] = Undefined SignedOverflow [196608, 65536]"
  by code_simp

section \<open>Overflow of add, subtract and multiply\<close>

text \<open>
  C2, as the code has it: the kernels compute with the signed operators of C, which have
  no wraparound. Where every exact result fits the width, the add, subtract and multiply
  kernels return and \<open>result[i]\<close> is the wraparound result (which is then the exact one);
  where the exact result of some element does not fit, the call reaches a signed
  overflow, which is undefined behaviour.
\<close>

theorem wraparound_only_when_exact:
  fixes mem :: "'a::len word list"
  assumes "a + iterations len \<le> length mem" "result + iterations len \<le> length mem"
    and "same_or_apart a result (iterations len)"
    and "opr = Add \<or> opr = Sub \<or> opr = Mul"
  shows "((\<forall>j < iterations len.
            representable LENGTH('a) (exact_result opr (sint (mem ! (a + j))) (sint b))) \<longrightarrow>
          (\<exists>mem'. scalar_kernel opr a b result len mem = Returned mem'
             \<and> (\<forall>j < iterations len. mem' ! (result + j) = wrapping opr (mem ! (a + j)) b)))
    \<and> ((\<exists>j < iterations len.
            \<not> representable LENGTH('a) (exact_result opr (sint (mem ! (a + j))) (sint b))) \<longrightarrow>
          (\<exists>mem'. scalar_kernel opr a b result len mem = Undefined SignedOverflow mem'))"
proof -
  have hv: "has_value opr x b \<longleftrightarrow> representable LENGTH('a) (exact_result opr (sint x) (sint b))"
    for x :: "'a word"
    using assms(4) by auto
  have ub: "undefined_at opr b = SignedOverflow"
    using assms(4) by (auto simp: undefined_at_def)
  obtain m where m: "m \<le> iterations len" "\<forall>j<m. has_value opr (mem ! (a + j)) b"
    "m = iterations len \<or> \<not> has_value opr (mem ! (a + m)) b"
    by (rule first_without_value)
  show ?thesis
  proof (cases "m = iterations len")
    case True
    then show ?thesis
      using scalar_kernel_returns [OF assms(1-3), of opr b] m(2) by (auto simp: hv)
  next
    case False
    then have "m < iterations len" "\<not> has_value opr (mem ! (a + m)) b"
      using m by simp_all
    then show ?thesis
      using scalar_kernel_undefined [OF assms(1-3) _ m(2)] by (auto simp: hv ub)
  qed
qed

theorem wraparound_only_when_exact_witness:
  "0 + iterations 2 \<le> length [5, - 6, 0, 0 :: 64 word]
   \<and> 2 + iterations 2 \<le> length [5, - 6, 0, 0 :: 64 word]
   \<and> same_or_apart 0 2 (iterations 2)
   \<and> representable 64 (exact_result Add (sint ([5, - 6, 0, 0 :: 64 word] ! (0 + 0))) (sint (10 :: 64 word)))
   \<and> representable 64 (exact_result Add (sint ([5, - 6, 0, 0 :: 64 word] ! (0 + 1))) (sint (10 :: 64 word)))
   \<and> (\<exists>mem'. int64_add_scalar 0 10 2 2 [5, - 6, 0, 0] = Returned mem'
         \<and> (\<forall>j < iterations 2. mem' ! (2 + j) = wrapping Add ([5, - 6, 0, 0] ! (0 + j)) 10))
   \<and> 0 + iterations 1 \<le> length [MIN_VALUE, 0 :: 32 word]
   \<and> 1 + iterations 1 \<le> length [MIN_VALUE, 0 :: 32 word]
   \<and> same_or_apart 0 1 (iterations 1)
   \<and> (\<exists>j < iterations 1.
         \<not> representable 32 (exact_result Sub (sint ([MIN_VALUE, 0 :: 32 word] ! (0 + j))) (sint (1 :: 32 word))))
   \<and> (\<exists>mem'. int32_sub_scalar 0 1 1 1 [MIN_VALUE, 0] = Undefined SignedOverflow mem')"
proof -
  have n: "iterations 2 = 2" "iterations 1 = 1"
    by (simp_all add: iterations_def)
  have h1: "0 + iterations 2 \<le> length [5, - 6, 0, 0 :: 64 word]"
    and h2: "2 + iterations 2 \<le> length [5, - 6, 0, 0 :: 64 word]"
    and h3: "same_or_apart 0 2 (iterations 2)"
    by (simp_all add: n same_or_apart_def)
  have h4: "\<forall>j < iterations 2.
      representable LENGTH(64) (exact_result Add (sint ([5, - 6, 0, 0 :: 64 word] ! (0 + j))) (sint (10 :: 64 word)))"
    by (simp add: n less_2_cases_iff representable_def)
  have g1: "0 + iterations 1 \<le> length [MIN_VALUE, 0 :: 32 word]"
    and g2: "1 + iterations 1 \<le> length [MIN_VALUE, 0 :: 32 word]"
    and g3: "same_or_apart 0 1 (iterations 1)"
    by (simp_all add: n same_or_apart_def)
  have g4: "\<exists>j < iterations 1.
      \<not> representable LENGTH(32) (exact_result Sub (sint ([MIN_VALUE, 0 :: 32 word] ! (0 + j))) (sint (1 :: 32 word)))"
    by (simp add: n representable_def sint_MIN_VALUE)
  have returned: "\<exists>mem'. int64_add_scalar 0 10 2 2 [5, - 6, 0, 0] = Returned mem'
      \<and> (\<forall>j < iterations 2. mem' ! (2 + j) = wrapping Add ([5, - 6, 0, 0] ! (0 + j)) 10)"
    using wraparound_only_when_exact [OF h1 h2 h3, of Add 10] h4
    unfolding int64_add_scalar_def by blast
  have undefined: "\<exists>mem'. int32_sub_scalar 0 1 1 1 [MIN_VALUE, 0] = Undefined SignedOverflow mem'"
    using wraparound_only_when_exact [OF g1 g2 g3, of Sub 1] g4
    unfolding int32_sub_scalar_def by blast
  have each: "representable 64 (exact_result Add (sint ([5, - 6, 0, 0 :: 64 word] ! (0 + 0))) (sint (10 :: 64 word)))"
    "representable 64 (exact_result Add (sint ([5, - 6, 0, 0 :: 64 word] ! (0 + 1))) (sint (10 :: 64 word)))"
    by (simp_all add: representable_def)
  show ?thesis
    using h1 h2 h3 each g1 g2 g3 g4 returned undefined by simp
qed

text \<open>
  C2 as stated promises \<open>wrapping_add\<close> on every input. \<^verbatim>\<open>INT64_MAX + 1\<close> overflows: the
  call of \<^verbatim>\<open>int64_add_scalar\<close> is undefined and nothing is written.
\<close>

theorem add_overflow_counterexample:
  "int64_add_scalar 0 1 1 1 [0x7FFFFFFFFFFFFFFF, 0] = Undefined SignedOverflow [0x7FFFFFFFFFFFFFFF, 0]"
  by code_simp


section \<open>Division by zero\<close>

text \<open>
  C3, as the code has it: the divide and modulo kernels check nothing and return
  \<^verbatim>\<open>void\<close>, so no error is reported. With the scalar zero and \<open>len \<ge> 1\<close> the first
  iteration divides \<open>a[0]\<close> by zero, which is undefined behaviour, before any store: the
  memory is as it was. With \<open>len \<le> 0\<close> the call returns.
\<close>

theorem division_by_zero_is_undefined:
  fixes mem :: "'a::len word list"
  assumes "opr = Div \<or> opr = Mod"
  shows "(0 < sint len \<and> a < length mem \<longrightarrow>
           scalar_kernel opr a 0 result len mem = Undefined DivisionByZero mem)
    \<and> (sint len \<le> 0 \<longrightarrow> scalar_kernel opr a 0 result len mem = Returned mem)"
proof (intro conjI impI)
  assume run: "0 < sint len \<and> a < length mem"
  have "c_binop opr (mem ! (a + nat (sint (0 :: 32 word)))) 0 = Inl DivisionByZero"
    using assms by (auto simp: c_div_def c_mod_def)
  moreover have "0 <s len" "a + nat (sint (0 :: 32 word)) < length mem"
    using run by (simp_all add: word_sless_alt)
  ultimately show "scalar_kernel opr a 0 result len mem = Undefined DivisionByZero mem"
    unfolding scalar_kernel_def by (intro scalar_loop_undefined)
next
  assume "sint len \<le> 0"
  then show "scalar_kernel opr a 0 result len mem = Returned mem"
    by (simp add: scalar_kernel_def scalar_loop_stop word_sless_alt)
qed

theorem division_by_zero_is_undefined_witness:
  "0 < sint (2 :: 32 word) \<and> (0::nat) < length [7, 8, 9, 10 :: 32 word]
   \<and> int32_mod_scalar 0 0 2 2 [7, 8, 9, 10] = Undefined DivisionByZero [7, 8, 9, 10]
   \<and> sint (0 :: 32 word) \<le> 0
   \<and> int32_mod_scalar 0 0 2 0 [7, 8, 9, 10] = Returned [7, 8, 9, 10]"
proof -
  have h: "0 < sint (2 :: 32 word) \<and> (0::nat) < length [7, 8, 9, 10 :: 32 word]"
    and g: "sint (0 :: 32 word) \<le> 0"
    by simp_all
  have "Mod = Div \<or> Mod = Mod"
    by simp
  from division_by_zero_is_undefined [OF this, of 2 0 "[7, 8, 9, 10 :: 32 word]" 2]
    division_by_zero_is_undefined [OF this, of 0 0 "[7, 8, 9, 10 :: 32 word]" 2]
  show ?thesis
    using h g unfolding int32_mod_scalar_def by blast
qed

text \<open>
  C3 as stated says that a call with the scalar zero always fails. With \<^verbatim>\<open>len == 0\<close> the
  divide kernel returns.
\<close>

theorem divide_by_zero_counterexample:
  "int64_div_scalar 0 0 2 0 [7, 8, 9, 10] = Returned [7, 8, 9, 10]"
  by code_simp

section \<open>The least value divided by minus one\<close>

text \<open>
  C4, as the code has it: with the scalar \<open>-1\<close> and some \<open>a[i] = MIN_VALUE\<close>, the divide
  and modulo kernels reach, at the first such element, a quotient that does not fit the
  width, which is undefined behaviour; no error is reported and no value is substituted.
  The results of the elements before it have been written, and nothing else.
\<close>

theorem min_by_minus_one_is_undefined:
  fixes mem :: "'a::len word list"
  assumes "a + iterations len \<le> length mem" "result + iterations len \<le> length mem"
    and "same_or_apart a result (iterations len)"
    and "opr = Div \<or> opr = Mod"
    and "i < iterations len" "mem ! (a + i) = MIN_VALUE"
  shows "\<exists>m mem'. m \<le> i \<and> mem ! (a + m) = MIN_VALUE
    \<and> scalar_kernel opr a (- 1) result len mem = Undefined SignedOverflow mem'
    \<and> (\<forall>j<m. mem' ! (result + j) = wrapping opr (mem ! (a + j)) (- 1))
    \<and> (\<forall>k. k < result \<or> result + m \<le> k \<longrightarrow> mem' ! k = mem ! k)"
proof -
  have hv: "has_value opr x (- 1) \<longleftrightarrow> x \<noteq> MIN_VALUE" for x :: "'a word"
    using assms(4) by auto
  have ub: "undefined_at opr (- 1 :: 'a word) = SignedOverflow"
    by (simp add: undefined_at_def)
  obtain m where m: "m \<le> iterations len" "\<forall>j<m. has_value opr (mem ! (a + j)) (- 1)"
    "m = iterations len \<or> \<not> has_value opr (mem ! (a + m)) (- 1)"
    by (rule first_without_value)
  have "\<not> i < m"
    using m(2) assms(6) by (auto simp: hv)
  then have "m \<le> i" "m < iterations len"
    using assms(5) by simp_all
  moreover from this m(3) have stop: "\<not> has_value opr (mem ! (a + m)) (- 1)"
    by simp
  then have "mem ! (a + m) = MIN_VALUE"
    by (simp add: hv)
  ultimately show ?thesis
    using scalar_kernel_undefined [OF assms(1-3) _ m(2) stop] by (auto simp: ub)
qed

theorem min_by_minus_one_is_undefined_witness:
  "0 + iterations 3 \<le> length [6, MIN_VALUE, 8, 0, 0, 0 :: 32 word]
   \<and> 3 + iterations 3 \<le> length [6, MIN_VALUE, 8, 0, 0, 0 :: 32 word]
   \<and> same_or_apart 0 3 (iterations 3)
   \<and> (1::nat) < iterations 3 \<and> [6, MIN_VALUE, 8, 0, 0, 0 :: 32 word] ! (0 + 1) = MIN_VALUE
   \<and> (\<exists>m mem'. m \<le> 1 \<and> [6, MIN_VALUE, 8, 0, 0, 0 :: 32 word] ! (0 + m) = MIN_VALUE
        \<and> int32_mod_scalar 0 (- 1) 3 3 [6, MIN_VALUE, 8, 0, 0, 0] = Undefined SignedOverflow mem'
        \<and> (\<forall>j<m. mem' ! (3 + j) = wrapping Mod ([6, MIN_VALUE, 8, 0, 0, 0] ! (0 + j)) (- 1))
        \<and> (\<forall>k. k < 3 \<or> 3 + m \<le> k \<longrightarrow> mem' ! k = [6, MIN_VALUE, 8, 0, 0, 0] ! k))"
proof -
  have n: "iterations 3 = 3"
    by (simp add: iterations_def)
  have h1: "0 + iterations 3 \<le> length [6, MIN_VALUE, 8, 0, 0, 0 :: 32 word]"
    and h2: "3 + iterations 3 \<le> length [6, MIN_VALUE, 8, 0, 0, 0 :: 32 word]"
    and h3: "same_or_apart 0 3 (iterations 3)"
    and h4: "Mod = Div \<or> Mod = Mod"
    and h5: "(1::nat) < iterations 3"
    and h6: "[6, MIN_VALUE, 8, 0, 0, 0 :: 32 word] ! (0 + 1) = MIN_VALUE"
    by (simp_all add: n same_or_apart_def)
  show ?thesis
    using min_by_minus_one_is_undefined [OF h1 h2 h3 h4 h5 h6] h1 h2 h3 h5 h6
    unfolding int32_mod_scalar_def by blast
qed

text \<open>
  C4 as stated promises an Overflow error or a documented substitute. The divide kernel
  has written \<open>result[0]\<close> when it reaches the undefined \<^verbatim>\<open>INT64_MIN / -1\<close>.
\<close>

theorem min_by_minus_one_counterexample:
  "int64_div_scalar 0 (- 1) 2 2 [6, MIN_VALUE, 0, 0] = Undefined SignedOverflow [6, MIN_VALUE, - 6, 0]"
  by code_simp

section \<open>Truncating division\<close>

text \<open>
  C5: for every width, when the scalar is not zero and no element is \<open>MIN_VALUE\<close> with the
  scalar \<open>-1\<close>, the divide kernel returns the quotients rounded toward zero and the modulo
  kernel the remainders of that division, each with the sign of its dividend or zero. On
  \<open>[-7]\<close> and \<open>3\<close> the modulo kernel writes \<open>-1\<close>.
\<close>

theorem division_truncates:
  fixes mem :: "'a::len word list"
  assumes "a + iterations len \<le> length mem" "result + iterations len \<le> length mem"
    and "same_or_apart a result (iterations len)"
    and "b \<noteq> 0" "\<forall>j < iterations len. \<not> (mem ! (a + j) = MIN_VALUE \<and> b = - 1)"
  shows "\<exists>quot rem. scalar_kernel Div a b result len mem = Returned quot
    \<and> scalar_kernel Mod a b result len mem = Returned rem
    \<and> (\<forall>j < iterations len.
          truncated_quotient (sint (mem ! (a + j))) (sint b) (sint (quot ! (result + j)))
          \<and> truncated_remainder (sint (mem ! (a + j))) (sint b) (sint (rem ! (result + j))))"
proof -
  have hv: "\<forall>j < iterations len. has_value Div (mem ! (a + j)) b"
    "\<forall>j < iterations len. has_value Mod (mem ! (a + j)) b"
    using assms(4,5) by simp_all
  obtain quot where quot: "scalar_kernel Div a b result len mem = Returned quot"
    "\<forall>j < iterations len. quot ! (result + j) = wrapping Div (mem ! (a + j)) b"
    using scalar_kernel_returns [OF assms(1-3) hv(1)] by blast
  obtain rem where rem: "scalar_kernel Mod a b result len mem = Returned rem"
    "\<forall>j < iterations len. rem ! (result + j) = wrapping Mod (mem ! (a + j)) b"
    using scalar_kernel_returns [OF assms(1-3) hv(2)] by blast
  have y: "sint b \<noteq> 0"
    using assms(4) by (rule sint_neq_zero)
  have "truncated_quotient (sint (mem ! (a + j))) (sint b) (sint (quot ! (result + j)))"
    and "truncated_remainder (sint (mem ! (a + j))) (sint b) (sint (rem ! (result + j)))"
    if "j < iterations len" for j
  proof -
    have "sint (quot ! (result + j)) = sint (mem ! (a + j)) sdiv sint b"
      using that quot(2) hv(1) c_binop_has_value(2) [of Div "mem ! (a + j)" b] by simp
    then show "truncated_quotient (sint (mem ! (a + j))) (sint b) (sint (quot ! (result + j)))"
      using y by (simp add: sdiv_truncated_quotient)
    have "sint (rem ! (result + j)) = sint (mem ! (a + j)) smod sint b"
      using that rem(2) hv(2) c_binop_has_value(2) [of Mod "mem ! (a + j)" b] by simp
    then show "truncated_remainder (sint (mem ! (a + j))) (sint b) (sint (rem ! (result + j)))"
      using y by (simp add: smod_truncated_remainder)
  qed
  then show ?thesis
    using quot(1) rem(1) by blast
qed

theorem division_truncates_witness:
  "0 + iterations 1 \<le> length [- 7, 0 :: 32 word]
   \<and> 1 + iterations 1 \<le> length [- 7, 0 :: 32 word]
   \<and> same_or_apart 0 1 (iterations 1)
   \<and> (3 :: 32 word) \<noteq> 0
   \<and> \<not> ([- 7, 0 :: 32 word] ! (0 + 0) = MIN_VALUE \<and> (3 :: 32 word) = - 1)
   \<and> (\<exists>quot rem. int32_div_scalar 0 3 1 1 [- 7, 0] = Returned quot
        \<and> int32_mod_scalar 0 3 1 1 [- 7, 0] = Returned rem
        \<and> (\<forall>j < iterations 1.
              truncated_quotient (sint ([- 7, 0 :: 32 word] ! (0 + j))) (sint (3 :: 32 word))
                (sint (quot ! (1 + j)))
              \<and> truncated_remainder (sint ([- 7, 0 :: 32 word] ! (0 + j))) (sint (3 :: 32 word))
                (sint (rem ! (1 + j)))))
   \<and> int32_div_scalar 0 3 1 1 [- 7, 0] = Returned [- 7, - 2]
   \<and> int32_mod_scalar 0 3 1 1 [- 7, 0] = Returned [- 7, - 1]
   \<and> int64_mod_scalar 0 3 1 1 [- 7, 0] = Returned [- 7, - 1]"
proof -
  have n: "iterations 1 = 1"
    by (simp add: iterations_def)
  have h1: "0 + iterations 1 \<le> length [- 7, 0 :: 32 word]"
    and h2: "1 + iterations 1 \<le> length [- 7, 0 :: 32 word]"
    and h3: "same_or_apart 0 1 (iterations 1)"
    and h4: "(3 :: 32 word) \<noteq> 0"
    and h5: "\<forall>j < iterations 1. \<not> ([- 7, 0 :: 32 word] ! (0 + j) = MIN_VALUE \<and> (3 :: 32 word) = - 1)"
    by (simp_all add: n same_or_apart_def)
  have run: "int32_div_scalar 0 3 1 1 [- 7, 0] = Returned [- 7, - 2]"
    "int32_mod_scalar 0 3 1 1 [- 7, 0] = Returned [- 7, - 1]"
    "int64_mod_scalar 0 3 1 1 [- 7, 0] = Returned [- 7, - 1]"
    by code_simp+
  have each: "\<not> ([- 7, 0 :: 32 word] ! (0 + 0) = MIN_VALUE \<and> (3 :: 32 word) = - 1)"
    by simp
  show ?thesis
    using division_truncates [OF h1 h2 h3 h4 h5] h1 h2 h3 h4 each run
    unfolding int32_div_scalar_def int32_mod_scalar_def by blast
qed

section \<open>Adding and subtracting the same scalar\<close>

text \<open>
  C6: for every width, when the add kernel has returned (so no sum overflowed), the
  subtract kernel with the same scalar on its output returns as well (no difference
  overflows), and its output is the buffer that the add kernel was given.
\<close>

theorem add_then_subtract_round_trip:
  fixes mem :: "'a::len word list"
  assumes "a + iterations len \<le> length mem" "tmp + iterations len \<le> length mem"
    and "out + iterations len \<le> length mem"
    and "same_or_apart a tmp (iterations len)" "same_or_apart tmp out (iterations len)"
    and "scalar_kernel Add a b tmp len mem = Returned mem1"
  shows "\<exists>mem2. scalar_kernel Sub tmp b out len mem1 = Returned mem2
    \<and> (\<forall>j < iterations len. mem2 ! (out + j) = mem ! (a + j))"
proof -
  have hv: "\<forall>j < iterations len. has_value Add (mem ! (a + j)) b"
    using assms(1,2,4,6) by (rule scalar_kernel_Returned_has_value)
  have mem1: "length mem1 = length mem"
    "\<forall>j < iterations len. mem1 ! (tmp + j) = wrapping Add (mem ! (a + j)) b"
    using scalar_kernel_returns [OF assms(1,2,4) hv] assms(6) by auto
  have inv: "has_value Sub (mem1 ! (tmp + j)) b"
    "wrapping Sub (mem1 ! (tmp + j)) b = mem ! (a + j)" if "j < iterations len" for j
  proof -
    have "sint (mem1 ! (tmp + j)) = sint (mem ! (a + j)) + sint b"
      using that mem1(2) hv c_binop_has_value(2) [of Add "mem ! (a + j)" b] by simp
    then show "has_value Sub (mem1 ! (tmp + j)) b"
      by (simp add: sint_representable)
    show "wrapping Sub (mem1 ! (tmp + j)) b = mem ! (a + j)"
      using that mem1(2) by simp
  qed
  have "\<exists>mem2. scalar_kernel Sub tmp b out len mem1 = Returned mem2
    \<and> length mem2 = length mem1
    \<and> (\<forall>j < iterations len. mem2 ! (out + j) = wrapping Sub (mem1 ! (tmp + j)) b)
    \<and> (\<forall>k. k < out \<or> out + iterations len \<le> k \<longrightarrow> mem2 ! k = mem1 ! k)"
    using assms(2,3,5) inv(1) by (intro scalar_kernel_returns) (simp_all add: mem1(1))
  then show ?thesis
    using inv(2) by auto
qed

theorem add_then_subtract_round_trip_witness:
  "0 + iterations 2 \<le> length [40, - 50, 0, 0, 0, 0 :: 64 word]
   \<and> 2 + iterations 2 \<le> length [40, - 50, 0, 0, 0, 0 :: 64 word]
   \<and> 4 + iterations 2 \<le> length [40, - 50, 0, 0, 0, 0 :: 64 word]
   \<and> same_or_apart 0 2 (iterations 2) \<and> same_or_apart 2 4 (iterations 2)
   \<and> int64_add_scalar 0 9 2 2 [40, - 50, 0, 0, 0, 0] = Returned [40, - 50, 49, - 41, 0, 0]
   \<and> (\<exists>mem2. int64_sub_scalar 2 9 4 2 [40, - 50, 49, - 41, 0, 0] = Returned mem2
        \<and> (\<forall>j < iterations 2. mem2 ! (4 + j) = [40, - 50, 0, 0, 0, 0] ! (0 + j)))
   \<and> int64_sub_scalar 2 9 4 2 [40, - 50, 49, - 41, 0, 0] = Returned [40, - 50, 49, - 41, 40, - 50]"
proof -
  have n: "iterations 2 = 2"
    by (simp add: iterations_def)
  have h1: "0 + iterations 2 \<le> length [40, - 50, 0, 0, 0, 0 :: 64 word]"
    and h2: "2 + iterations 2 \<le> length [40, - 50, 0, 0, 0, 0 :: 64 word]"
    and h3: "4 + iterations 2 \<le> length [40, - 50, 0, 0, 0, 0 :: 64 word]"
    and h4: "same_or_apart 0 2 (iterations 2)" and h5: "same_or_apart 2 4 (iterations 2)"
    by (simp_all add: n same_or_apart_def)
  have h6: "scalar_kernel Add 0 9 2 2 [40, - 50, 0, 0, 0, 0 :: 64 word]
      = Returned [40, - 50, 49, - 41, 0, 0]"
    by code_simp
  have run: "int64_sub_scalar 2 9 4 2 [40, - 50, 49, - 41, 0, 0]
      = Returned [40, - 50, 49, - 41, 40, - 50]"
    by code_simp
  show ?thesis
    using add_then_subtract_round_trip [OF h1 h2 h3 h4 h5 h6] h1 h2 h3 h4 h5 h6 run
    unfolding int64_add_scalar_def int64_sub_scalar_def by blast
qed

section \<open>The output in place of the input\<close>

text \<open>
  C8, as the code has it: for every operation and width, with both buffers in the memory
  and the second output apart from the input, the call with \<^verbatim>\<open>result == a\<close> and the call
  with the output apart end alike where \<open>a[i] OP b\<close> has a value for every \<open>i < len\<close>:
  both return and the two outputs hold the same elements. Where some \<open>a[i] OP b\<close> has no
  value, both calls reach the same undefined operation at the first such index; the two
  outputs agree below that index, and from it on each output buffer holds what it held
  before the call.
\<close>

theorem in_place_agrees_with_apart:
  fixes mem :: "'a::len word list"
  assumes "a + iterations len \<le> length mem" "result + iterations len \<le> length mem"
    and "a + iterations len \<le> result \<or> result + iterations len \<le> a"
  shows "((\<forall>j < iterations len. has_value opr (mem ! (a + j)) b)
          \<and> (\<exists>m1 m2. scalar_kernel opr a b a len mem = Returned m1
                \<and> scalar_kernel opr a b result len mem = Returned m2
                \<and> (\<forall>j < iterations len. m1 ! (a + j) = m2 ! (result + j))))
    \<or> (\<exists>m m1 m2. m < iterations len
            \<and> (\<forall>j<m. has_value opr (mem ! (a + j)) b)
            \<and> \<not> has_value opr (mem ! (a + m)) b
            \<and> scalar_kernel opr a b a len mem = Undefined (undefined_at opr b) m1
            \<and> scalar_kernel opr a b result len mem = Undefined (undefined_at opr b) m2
            \<and> (\<forall>j<m. m1 ! (a + j) = m2 ! (result + j))
            \<and> (\<forall>j. m \<le> j \<and> j < iterations len \<longrightarrow>
                  m1 ! (a + j) = mem ! (a + j) \<and> m2 ! (result + j) = mem ! (result + j)))"
proof -
  have same: "same_or_apart a a (iterations len)"
    and apart: "same_or_apart a result (iterations len)"
    using assms(3) by (auto simp: same_or_apart_def)
  obtain m where m: "m \<le> iterations len" "\<forall>j<m. has_value opr (mem ! (a + j)) b"
    "m = iterations len \<or> \<not> has_value opr (mem ! (a + m)) b"
    by (rule first_without_value)
  obtain m1 where m1: "scalar_kernel opr a b a len mem =
      (if m = iterations len then Returned m1 else Undefined (undefined_at opr b) m1)"
    "\<forall>j<m. m1 ! (a + j) = wrapping opr (mem ! (a + j)) b"
    "\<forall>k. k < a \<or> a + m \<le> k \<longrightarrow> m1 ! k = mem ! k"
    using scalar_kernel_run [OF assms(1) assms(1) same m] by blast
  obtain m2 where m2: "scalar_kernel opr a b result len mem =
      (if m = iterations len then Returned m2 else Undefined (undefined_at opr b) m2)"
    "\<forall>j<m. m2 ! (result + j) = wrapping opr (mem ! (a + j)) b"
    "\<forall>k. k < result \<or> result + m \<le> k \<longrightarrow> m2 ! k = mem ! k"
    using scalar_kernel_run [OF assms(1) assms(2) apart m] by blast
  have agree: "\<forall>j<m. m1 ! (a + j) = m2 ! (result + j)"
    using m1(2) m2(2) by simp
  show ?thesis
  proof (cases "m = iterations len")
    case True
    then show ?thesis
      using m(2) m1(1) m2(1) agree by auto
  next
    case False
    then have "m < iterations len" "\<not> has_value opr (mem ! (a + m)) b"
      using m(1,3) by simp_all
    moreover have "scalar_kernel opr a b a len mem = Undefined (undefined_at opr b) m1"
      "scalar_kernel opr a b result len mem = Undefined (undefined_at opr b) m2"
      using False m1(1) m2(1) by simp_all
    moreover have "\<forall>j. m \<le> j \<and> j < iterations len \<longrightarrow>
        m1 ! (a + j) = mem ! (a + j) \<and> m2 ! (result + j) = mem ! (result + j)"
      using m1(3) m2(3) by simp
    ultimately show ?thesis
      using m(2) agree by blast
  qed
qed

theorem in_place_agrees_with_apart_witness:
  "0 + iterations 2 \<le> length [- 7, 9, 0, 0 :: 64 word]
   \<and> 2 + iterations 2 \<le> length [- 7, 9, 0, 0 :: 64 word]
   \<and> ((0::nat) + iterations 2 \<le> 2 \<or> 2 + iterations 2 \<le> (0::nat))
   \<and> has_value Mod ([- 7, 9, 0, 0 :: 64 word] ! (0 + 0)) 4
   \<and> has_value Mod ([- 7, 9, 0, 0 :: 64 word] ! (0 + 1)) 4
   \<and> (\<exists>m1 m2. int64_mod_scalar 0 4 0 2 [- 7, 9, 0, 0] = Returned m1
            \<and> int64_mod_scalar 0 4 2 2 [- 7, 9, 0, 0] = Returned m2
            \<and> (\<forall>j < iterations 2. m1 ! (0 + j) = m2 ! (2 + j)))
   \<and> int64_mod_scalar 0 4 0 2 [- 7, 9, 0, 0] = Returned [- 3, 1, 0, 0]
   \<and> int64_mod_scalar 0 4 2 2 [- 7, 9, 0, 0] = Returned [- 7, 9, - 3, 1]
   \<and> 0 + iterations 2 \<le> length [4, 5, 8, 8 :: 32 word]
   \<and> 2 + iterations 2 \<le> length [4, 5, 8, 8 :: 32 word]
   \<and> \<not> has_value Div ([4, 5, 8, 8 :: 32 word] ! (0 + 0)) 0
   \<and> (\<exists>m1 m2. int32_div_scalar 0 0 0 2 [4, 5, 8, 8] = Undefined DivisionByZero m1
            \<and> int32_div_scalar 0 0 2 2 [4, 5, 8, 8] = Undefined DivisionByZero m2)"
proof -
  have n: "iterations 2 = 2"
    by (simp add: iterations_def)
  have h1: "0 + iterations 2 \<le> length [- 7, 9, 0, 0 :: 64 word]"
    and h2: "2 + iterations 2 \<le> length [- 7, 9, 0, 0 :: 64 word]"
    and h3: "(0::nat) + iterations 2 \<le> 2 \<or> 2 + iterations 2 \<le> (0::nat)"
    by (simp_all add: n)
  have g1: "0 + iterations 2 \<le> length [4, 5, 8, 8 :: 32 word]"
    and g2: "2 + iterations 2 \<le> length [4, 5, 8, 8 :: 32 word]"
    and g3: "\<not> has_value Div ([4, 5, 8, 8 :: 32 word] ! (0 + 0)) 0"
    by (simp_all add: n)
  have ub: "undefined_at Div (0 :: 32 word) = DivisionByZero"
    by (simp add: undefined_at_def)
  have "\<not> (\<forall>j < iterations 2. has_value Div ([4, 5, 8, 8 :: 32 word] ! (0 + j)) 0)"
    by (auto simp: n intro: exI [of _ 0])
  then have undefined: "\<exists>m1 m2. int32_div_scalar 0 0 0 2 [4, 5, 8, 8] = Undefined DivisionByZero m1
      \<and> int32_div_scalar 0 0 2 2 [4, 5, 8, 8] = Undefined DivisionByZero m2"
    using in_place_agrees_with_apart [OF g1 g2 h3, of Div 0]
    unfolding int32_div_scalar_def ub by blast
  have each: "has_value Mod ([- 7, 9, 0, 0 :: 64 word] ! (0 + 0)) 4"
    "has_value Mod ([- 7, 9, 0, 0 :: 64 word] ! (0 + 1)) 4"
    by simp_all
  have run: "int64_mod_scalar 0 4 0 2 [- 7, 9, 0, 0] = Returned [- 3, 1, 0, 0]"
    "int64_mod_scalar 0 4 2 2 [- 7, 9, 0, 0] = Returned [- 7, 9, - 3, 1]"
    by code_simp+
  have "\<exists>m1 m2. int64_mod_scalar 0 4 0 2 [- 7, 9, 0, 0] = Returned m1
      \<and> int64_mod_scalar 0 4 2 2 [- 7, 9, 0, 0] = Returned m2
      \<and> (\<forall>j < iterations 2. m1 ! (0 + j) = m2 ! (2 + j))"
    using in_place_agrees_with_apart [OF h1 h2 h3, of Mod 4] run
    unfolding int64_mod_scalar_def by auto
  then show ?thesis
    using h1 h2 h3 each run g1 g2 g3 undefined by blast
qed

text \<open>
  C8 as stated covers every input and scalar. \<^verbatim>\<open>INT32_MAX + 1\<close> overflows at index 1: in
  place the output buffer is left holding \<open>[6, INT32_MAX]\<close>, apart it is left holding
  \<open>[6, 9]\<close>.
\<close>

theorem in_place_differs_counterexample:
  "int32_add_scalar 0 1 0 2 [5, 2147483647, 9, 9]
     = Undefined SignedOverflow [6, 2147483647, 9, 9]
   \<and> int32_add_scalar 0 1 2 2 [5, 2147483647, 9, 9]
     = Undefined SignedOverflow [5, 2147483647, 6, 9]
   \<and> take 2 (drop 0 [6, 2147483647, 9, 9 :: 32 word])
     \<noteq> take 2 (drop 2 [5, 2147483647, 6, 9 :: 32 word])"
  by code_simp

section \<open>Calls that run no iteration\<close>

text \<open>
  C7: a call with \<^verbatim>\<open>len == 0\<close> returns, for every operation, width and scalar (zero
  included), and the memory, so the output buffer, is as it was.
\<close>

theorem zero_length_returns_unchanged:
  "scalar_kernel opr a b result 0 mem = Returned mem"
  by (simp add: scalar_kernel_def scalar_loop_stop)

theorem zero_length_returns_unchanged_witness:
  "int32_mod_scalar 0 0 1 0 [5, 6] = Returned [5, 6]
   \<and> int64_mul_scalar 0 3 0 0 [5, 6] = Returned [5, 6]"
  unfolding int32_mod_scalar_def int64_mul_scalar_def
  using zero_length_returns_unchanged [of Mod 0 "0 :: 32 word" 1 "[5, 6]"]
    zero_length_returns_unchanged [of Mul 0 "3 :: 64 word" 0 "[5, 6]"]
  by blast

text \<open>
  C10: a negative \<^verbatim>\<open>len\<close> (it is a signed \<^verbatim>\<open>int\<close>) runs no iteration: the kernel
  returns with the memory unchanged, for every operation, width and scalar, exactly as
  for \<^verbatim>\<open>len == 0\<close>.
\<close>

theorem negative_length_like_zero:
  assumes "sint len < 0"
  shows "scalar_kernel opr a b result len mem = Returned mem
    \<and> scalar_kernel opr a b result len mem = scalar_kernel opr a b result 0 mem"
  using assms by (simp add: scalar_kernel_def scalar_loop_stop word_sless_alt)

theorem negative_length_like_zero_witness:
  "sint (- 1 :: 32 word) < 0
   \<and> int32_div_scalar 0 0 2 (- 1) [7, 8, 9, 10] = Returned [7, 8, 9, 10]
   \<and> int32_div_scalar 0 0 2 (- 1) [7, 8, 9, 10] = int32_div_scalar 0 0 2 0 [7, 8, 9, 10]"
proof -
  have neg: "sint (- 1 :: 32 word) < 0"
    by simp
  show ?thesis
    unfolding int32_div_scalar_def
    using neg negative_length_like_zero [OF neg, of Div 0 "0 :: 32 word" 2 "[7, 8, 9, 10]"]
    by blast
qed

section \<open>The frame of a call\<close>

text \<open>
  C9: whatever a call does, returning or reaching an undefined operation, it stores only
  into the first \<^verbatim>\<open>len\<close> elements of \<^verbatim>\<open>result\<close>: the memory keeps its size and every
  element outside that range, so every element of \<^verbatim>\<open>a\<close> that is not also an element of
  the output range. The scalar is passed by value.
\<close>

theorem writes_only_result:
  fixes mem :: "'a::len word list"
  shows "length (memory_of (scalar_kernel opr a b result len mem)) = length mem
    \<and> (\<forall>k. \<not> (result \<le> k \<and> k < result + iterations len) \<longrightarrow>
          memory_of (scalar_kernel opr a b result len mem) ! k = mem ! k)
    \<and> (\<forall>j < iterations len. \<not> (result \<le> a + j \<and> a + j < result + iterations len) \<longrightarrow>
          memory_of (scalar_kernel opr a b result len mem) ! (a + j) = mem ! (a + j))"
  using scalar_loop_frame [of 0 opr a b result len mem]
  by (auto simp: scalar_kernel_def)

theorem writes_only_result_witness:
  "memory_of (int32_mul_scalar 0 3 2 2 [5, 6, 0, 0, 9]) = [5, 6, 15, 18, 9]
   \<and> length (memory_of (int32_mul_scalar 0 3 2 2 [5, 6, 0, 0, 9])) = 5
   \<and> \<not> (2 \<le> (4::nat) \<and> (4::nat) < 2 + iterations 2)
   \<and> memory_of (int32_mul_scalar 0 3 2 2 [5, 6, 0, 0, 9]) ! 4 = [5, 6, 0, 0, 9 :: 32 word] ! 4
   \<and> (1::nat) < iterations 2
   \<and> \<not> (2 \<le> (0::nat) + 1 \<and> (0::nat) + 1 < 2 + iterations 2)
   \<and> memory_of (int32_mul_scalar 0 3 2 2 [5, 6, 0, 0, 9]) ! (0 + 1) = [5, 6, 0, 0, 9 :: 32 word] ! (0 + 1)"
proof -
  have run: "scalar_kernel Mul 0 (3 :: 32 word) 2 2 [5, 6, 0, 0, 9] = Returned [5, 6, 15, 18, 9]"
    by code_simp
  have n: "iterations 2 = 2"
    by (simp add: iterations_def)
  show ?thesis
    using writes_only_result [of Mul 0 "3 :: 32 word" 2 2 "[5, 6, 0, 0, 9]"]
    by (simp add: int32_mul_scalar_def run n)
qed

end
